theory Spec2Isabelle
  imports Main "HOL-Library.AList"
begin

section \<open>The attack graph of grafo\_ataque.py\<close>

text \<open>
  Nodes and exploit names are Python strings. An outgoing edge is the tuple
  (target node, exploit name) stored in the adjacency list of its source.
\<close>

type_synonym node = string
type_synonym edge = "node \<times> string"

text \<open>
  \<^verbatim>\<open>self.graph\<close> is a \<^verbatim>\<open>collections.defaultdict(list)\<close>. A Python dict keeps its
  keys in insertion order, so it is an association list whose first entry for a key is
  the entry of that key; a new key goes to the end.
\<close>

type_synonym adjacency = "(node \<times> edge list) list"

text \<open>\<^verbatim>\<open>k in d\<close>: membership never creates an entry.\<close>

definition dd_contains :: "adjacency \<Rightarrow> node \<Rightarrow> bool" where
  "dd_contains d k = (map_of d k \<noteq> None)"

text \<open>
  \<^verbatim>\<open>d[k]\<close> on a defaultdict: a present key gives its value; a missing key is inserted
  with the default \<^verbatim>\<open>list()\<close> and that empty list is the value. The dict after the
  access is returned with the value.
\<close>

definition dd_getitem :: "adjacency \<Rightarrow> node \<Rightarrow> edge list \<times> adjacency" where
  "dd_getitem d k =
     (case map_of d k of
        Some es \<Rightarrow> (es, d)
      | None \<Rightarrow> ([], d @ [(k, [])]))"

text \<open>
  \<^verbatim>\<open>self.visual_graph\<close> is a networkx \<^verbatim>\<open>DiGraph\<close>, a library outside the repository.
  Only two of its operations are used by the code under study: \<^verbatim>\<open>add_edge(u, v, label=l)\<close>,
  which stores one edge per ordered pair (a second insertion of the pair overwrites the
  label), and \<^verbatim>\<open>edges\<close>, the stored pairs. The pairs are kept here as an association
  list from (u, v) to the label; the search only asks for membership in it.
\<close>

type_synonym digraph = "((node \<times> node) \<times> string) list"

definition nx_add_edge :: "digraph \<Rightarrow> node \<Rightarrow> node \<Rightarrow> string \<Rightarrow> digraph" where
  "nx_add_edge vg u v l = AList.update (u, v) l vg"

definition nx_edges :: "digraph \<Rightarrow> (node \<times> node) list" where
  "nx_edges vg = map fst vg"

record AttackGraph =
  graph :: adjacency
  visual_graph :: digraph

text \<open>\<^verbatim>\<open>AttackGraph.__init__\<close>\<close>

definition init :: AttackGraph where
  "init = \<lparr> graph = [], visual_graph = [] \<rparr>"

text \<open>
  The lines written to the console by \<^verbatim>\<open>print\<close>, one constructor per format string of
  the source, carrying the values that the format string interpolates.
\<close>

datatype message =
    StepAdded node string node
  | UnknownStart node
  | SearchStarted node node
  | PathFound int
  | NoPathFound

text \<open>
  \<^verbatim>\<open>add_attack_step\<close>: \<^verbatim>\<open>self.graph[source].append((target, exploit_name))\<close> reads the
  list of \<^verbatim>\<open>source\<close> through the defaultdict and appends to it in place; then the edge
  goes into the visual graph and one line is printed. The result is the object after
  the call and the printed lines.
\<close>

definition add_attack_step ::
    "AttackGraph \<Rightarrow> node \<Rightarrow> node \<Rightarrow> string \<Rightarrow> AttackGraph \<times> message list" where
  "add_attack_step G source target exploit_name =
     (let (es, d) = dd_getitem (graph G) source in
        (\<lparr> graph = AList.update source (es @ [(target, exploit_name)]) d,
           visual_graph = nx_add_edge (visual_graph G) source target exploit_name \<rparr>,
         [StepAdded source exploit_name target]))"

text \<open>
  The \<^verbatim>\<open>for neighbor, exploit in self.graph[current_node]\<close> loop of the search: every
  neighbour not yet visited is marked visited and the path extended by it is appended
  to the queue.
\<close>

fun explore ::
    "node list \<Rightarrow> edge list \<Rightarrow> node list list \<times> node set \<Rightarrow> node list list \<times> node set" where
  "explore path [] (queue, visited) = (queue, visited)"
| "explore path ((neighbor, exploit) # es) (queue, visited) =
     (if neighbor \<notin> visited
      then explore path es (queue @ [path @ [neighbor]], insert neighbor visited)
      else explore path es (queue, visited))"

text \<open>
  The \<^verbatim>\<open>while queue:\<close> loop. Nothing in the text of the loop bounds its iterations, so
  it is a partial function: \<open>None\<close> is a loop that never returns, \<open>Some\<close> carries the
  returned value (a path, or Python's \<^verbatim>\<open>None\<close>), the adjacency dict as the loop left it
  and the line printed on the way out. \<^verbatim>\<open>path[-1]\<close> is \<open>last path\<close>; the queue only
  ever holds non-empty paths (\<open>paths_ok\<close> below keeps that as an invariant).
\<close>

partial_function (option) bfs_loop ::
    "adjacency \<Rightarrow> node list list \<Rightarrow> node set \<Rightarrow> node
       \<Rightarrow> (node list option \<times> adjacency \<times> message list) option" where
  "bfs_loop g queue visited target_node =
     (case queue of
        [] \<Rightarrow> Some (None, g, [NoPathFound])
      | path # rest \<Rightarrow>
          (if last path = target_node
           then Some (Some path, g, [PathFound (int (length path) - 1)])
           else (case dd_getitem g (last path) of
                   (nbrs, g') \<Rightarrow>
                     (case explore path nbrs (rest, visited) of
                        (queue', visited') \<Rightarrow> bfs_loop g' queue' visited' target_node))))"

declare bfs_loop.simps [code]

text \<open>
  \<^verbatim>\<open>find_shortest_attack_path_bfs\<close>. The guard is the source's
  \<^verbatim>\<open>start_node not in self.graph and start_node not in [u for u, v in self.visual_graph.edges]\<close>:
  the comprehension keeps the first component of every stored pair.
\<close>

definition find_shortest_attack_path_bfs ::
    "AttackGraph \<Rightarrow> node \<Rightarrow> node \<Rightarrow> (node list option \<times> AttackGraph \<times> message list) option" where
  "find_shortest_attack_path_bfs G start_node target_node =
     (if \<not> dd_contains (graph G) start_node
           \<and> start_node \<notin> set (map (\<lambda>(u, v). u) (nx_edges (visual_graph G)))
      then Some (None, G, [UnknownStart start_node])
      else (case bfs_loop (graph G) [[start_node]] {start_node} target_node of
              None \<Rightarrow> None
            | Some (r, g', out) \<Rightarrow>
                Some (r, G\<lparr> graph := g' \<rparr>, SearchStarted start_node target_node # out)))"

text \<open>
  The construction phase of the main program: a sequence of \<^verbatim>\<open>add_attack_step\<close> calls
  on a fresh object, here given as the list of their arguments.
\<close>

fun build_from :: "AttackGraph \<Rightarrow> (node \<times> node \<times> string) list \<Rightarrow> AttackGraph" where
  "build_from G [] = G"
| "build_from G ((s, t, e) # steps) = build_from (fst (add_attack_step G s t e)) steps"

definition build :: "(node \<times> node \<times> string) list \<Rightarrow> AttackGraph" where
  "build steps = build_from init steps"

definition sample_steps :: "(node \<times> node \<times> string) list" where
  "sample_steps =
     [(''Internet'', ''WebServer'', ''CVE-2023-XYZ (RCE)''),
      (''Internet'', ''VPN_Gateway'', ''Weak_Credentials''),
      (''WebServer'', ''AppServer'', ''Config_Error''),
      (''WebServer'', ''FileServer'', ''SMB_Exploit''),
      (''VPN_Gateway'', ''Internal_PC'', ''Phishing_Link''),
      (''AppServer'', ''Database_SQL'', ''SQL_Injection''),
      (''FileServer'', ''Database_SQL'', ''Stored_Creds''),
      (''Internal_PC'', ''Database_SQL'', ''Admin_Access''),
      (''Internal_PC'', ''Printer'', ''Default_Password''),
      (''Printer'', ''Database_SQL'', ''Legacy_Connect'')]"


section \<open>Observations used to state the properties\<close>

text \<open>
  Reading the adjacency list of a node without touching the dict (the spec's
  \<^verbatim>\<open>outgoing_edges\<close>): the stored list, or the empty list for a node that is not a key.
\<close>

definition outgoing_edges :: "adjacency \<Rightarrow> node \<Rightarrow> edge list" where
  "outgoing_edges d n = (case map_of d n of Some es \<Rightarrow> es | None \<Rightarrow> [])"

text \<open>One directed edge, over an adjacency function \<open>E\<close>.\<close>

definition step :: "(node \<Rightarrow> edge list) \<Rightarrow> node \<Rightarrow> node \<Rightarrow> bool" where
  "step E u v = (v \<in> fst ` set (E u))"

text \<open>A non-empty node sequence whose consecutive nodes are joined by edges.\<close>

fun walk :: "(node \<Rightarrow> edge list) \<Rightarrow> node list \<Rightarrow> bool" where
  "walk E [] = False"
| "walk E [x] = True"
| "walk E (x # y # r) = (step E x y \<and> walk E (y # r))"

definition connects :: "(node \<Rightarrow> edge list) \<Rightarrow> node \<Rightarrow> node \<Rightarrow> node list \<Rightarrow> bool" where
  "connects E s t w = (walk E w \<and> hd w = s \<and> last w = t)"

text \<open>The number of edges of a node sequence, \<^verbatim>\<open>len(path) - 1\<close>.\<close>

definition hops :: "node list \<Rightarrow> nat" where
  "hops w = length w - 1"

text \<open>The graph-theoretic distance: the least edge count of a walk from \<open>s\<close> to \<open>t\<close>.\<close>

definition hop_distance :: "(node \<Rightarrow> edge list) \<Rightarrow> node \<Rightarrow> node \<Rightarrow> nat" where
  "hop_distance E s t = (LEAST n. \<exists>w. connects E s t w \<and> hops w = n)"

section \<open>Auxiliary notions for the loop\<close>

text \<open>The neighbours that one run of the inner loop enqueues, in order.\<close>

fun fresh :: "edge list \<Rightarrow> node set \<Rightarrow> node list" where
  "fresh [] V = []"
| "fresh ((n, e) # es) V = (if n \<notin> V then n # fresh es (insert n V) else fresh es V)"

text \<open>Every node that some stored entry names as a target.\<close>

definition targets :: "adjacency \<Rightarrow> node set" where
  "targets d = (\<Union>(k, es) \<in> set d. fst ` set es)"

text \<open>The quantity that decreases with every iteration of the loop.\<close>

definition budget :: "adjacency \<Rightarrow> node list list \<Rightarrow> node set \<Rightarrow> nat" where
  "budget d q V = card (targets d - V) + length q"

text \<open>The parts of the loop invariant, for start node \<open>s\<close>.\<close>

definition paths_ok :: "(node \<Rightarrow> edge list) \<Rightarrow> node \<Rightarrow> node list list \<Rightarrow> node set \<Rightarrow> bool" where
  "paths_ok E s q V =
     (s \<in> V \<and> (\<forall>p \<in> set q. walk E p \<and> hd p = s \<and> distinct p \<and> set p \<subseteq> V))"

definition levels :: "node list list \<Rightarrow> bool" where
  "levels q = (sorted (map length q) \<and> (\<forall>p \<in> set q. length p \<le> Suc (length (hd q))))"

definition closed :: "(node \<Rightarrow> edge list) \<Rightarrow> node list list \<Rightarrow> node set \<Rightarrow> bool" where
  "closed E q V = (\<forall>u \<in> V. u \<notin> last ` set q \<longrightarrow> (\<forall>v. step E u v \<longrightarrow> v \<in> V))"

definition shortest :: "(node \<Rightarrow> edge list) \<Rightarrow> node \<Rightarrow> node list list \<Rightarrow> bool" where
  "shortest E s q =
     (\<forall>w p. walk E w \<and> hd w = s \<and> p \<in> set q \<and> last w = last p \<longrightarrow> length p \<le> length w)"

definition frontier :: "(node \<Rightarrow> edge list) \<Rightarrow> node \<Rightarrow> node list list \<Rightarrow> node set \<Rightarrow> bool" where
  "frontier E s q V =
     (\<forall>w. walk E w \<and> hd w = s \<and> last w \<notin> V \<and> q \<noteq> [] \<longrightarrow> length (hd q) < length w)"

definition bfs_inv :: "(node \<Rightarrow> edge list) \<Rightarrow> node \<Rightarrow> node list list \<Rightarrow> node set \<Rightarrow> bool" where
  "bfs_inv E s q V =
     (paths_ok E s q V \<and> levels q \<and> closed E q V \<and> shortest E s q \<and> frontier E s q V)"

text \<open>The entries that the search may add to the dict: keys with the empty list.\<close>

definition blanks :: "node list \<Rightarrow> adjacency" where
  "blanks ks = map (\<lambda>k. (k, [])) ks"

text \<open>
  The start nodes that pass the guard at the head of \<^verbatim>\<open>find_shortest_attack_path_bfs\<close>:
  the negation of its condition.
\<close>

definition start_known :: "AttackGraph \<Rightarrow> node \<Rightarrow> bool" where
  "start_known G s =
     (dd_contains (graph G) s \<or> s \<in> set (map (\<lambda>(u, v). u) (nx_edges (visual_graph G))))"

section \<open>The dict, the inner loop and the unfolding of the search loop\<close>

lemma fst_dd_getitem: "fst (dd_getitem d k) = outgoing_edges d k"
  by (simp add: dd_getitem_def outgoing_edges_def split: option.splits)

lemma outgoing_dd_getitem: "outgoing_edges (snd (dd_getitem d k)) = outgoing_edges d"
  by (rule ext) (auto simp: dd_getitem_def outgoing_edges_def map_add_def split: option.splits)

lemma targets_dd_getitem: "targets (snd (dd_getitem d k)) = targets d"
  by (simp add: dd_getitem_def targets_def split: option.splits)

lemma finite_targets: "finite (targets d)"
  by (auto simp: targets_def)

lemma outgoing_targets: "fst ` set (outgoing_edges d n) \<subseteq> targets d"
proof (cases "map_of d n")
  case None
  then show ?thesis by (simp add: outgoing_edges_def)
next
  case (Some es)
  then have "(n, es) \<in> set d" by (rule map_of_SomeD)
  with Some show ?thesis by (force simp: outgoing_edges_def targets_def)
qed

lemma explore_fresh:
  "explore path es (q, V) = (q @ map (\<lambda>n. path @ [n]) (fresh es V), V \<union> fst ` set es)"
  by (induction es arbitrary: q V) auto

lemma set_fresh: "set (fresh es V) = fst ` set es - V"
proof (induction es V rule: fresh.induct)
  case (1 V)
  show ?case by simp
next
  case (2 n e es V)
  show ?case
  proof (cases "n \<in> V")
    case True
    with 2 show ?thesis by auto
  next
    case False
    with 2 show ?thesis by auto
  qed
qed

lemma distinct_fresh: "distinct (fresh es V)"
  by (induction es arbitrary: V) (auto simp: set_fresh)

lemma bfs_loop_Nil: "bfs_loop d [] V t = Some (None, d, [NoPathFound])"
  by (subst bfs_loop.simps) simp

lemma bfs_loop_Cons:
  "bfs_loop d (p # rest) V t =
     (if last p = t then Some (Some p, d, [PathFound (int (length p) - 1)])
      else bfs_loop (snd (dd_getitem d (last p)))
             (rest @ map (\<lambda>n. p @ [n]) (fresh (outgoing_edges d (last p)) V))
             (V \<union> fst ` set (outgoing_edges d (last p))) t)"
  by (subst bfs_loop.simps)
     (simp add: explore_fresh fst_dd_getitem [symmetric] split: prod.splits)

lemma budget_step:
  "budget (snd (dd_getitem d u)) (rest @ map f (fresh (outgoing_edges d u) V))
      (V \<union> fst ` set (outgoing_edges d u)) < budget d (p # rest) V"
proof -
  let ?N = "fresh (outgoing_edges d u) V"
  let ?T = "targets d"
  have sub: "set ?N \<subseteq> ?T - V"
    using outgoing_targets [of d u] by (auto simp: set_fresh)
  have eq: "?T - V = (?T - (V \<union> fst ` set (outgoing_edges d u))) \<union> set ?N"
    using sub by (auto simp: set_fresh)
  have "card (?T - V) = card (?T - (V \<union> fst ` set (outgoing_edges d u))) + card (set ?N)"
    by (subst eq, rule card_Un_disjoint) (auto simp: finite_targets set_fresh)
  moreover have "card (set ?N) = length ?N"
    by (simp add: distinct_card distinct_fresh)
  ultimately show ?thesis
    by (simp add: budget_def targets_dd_getitem)
qed

lemma bfs_loop_induct [case_names Nil Cons]:
  assumes nil: "\<And>d V. P d [] V"
    and cons: "\<And>d p rest V.
        (last p \<noteq> t \<Longrightarrow>
           P (snd (dd_getitem d (last p)))
             (rest @ map (\<lambda>n. p @ [n]) (fresh (outgoing_edges d (last p)) V))
             (V \<union> fst ` set (outgoing_edges d (last p)))) \<Longrightarrow> P d (p # rest) V"
  shows "P d q V"
proof (induction "budget d q V" arbitrary: d q V rule: less_induct)
  case less
  show ?case
  proof (cases q)
    case Nil
    then show ?thesis by (simp add: nil)
  next
    case (Cons p rest)
    show ?thesis unfolding Cons
      by (rule cons, rule less) (simp add: Cons budget_step)
  qed
qed

lemma bfs_loop_total: "\<exists>r. bfs_loop d q V t = Some r"
  by (induction d q V rule: bfs_loop_induct [where t = t]) (simp_all add: bfs_loop_Nil bfs_loop_Cons)

section \<open>Walks and the preservation of the loop invariant\<close>

lemma walk_nonempty: "walk E w \<Longrightarrow> w \<noteq> []"
  by auto

lemma walk_snoc: "walk E (p @ [n]) = (p = [] \<or> (walk E p \<and> step E (last p) n))"
  by (induction E p rule: walk.induct) auto

lemma walk_cases:
  assumes "walk E w" "hd w = s"
  shows "w = [s] \<or> (\<exists>w' x. w = w' @ [x] \<and> walk E w' \<and> hd w' = s \<and> step E (last w') x)"
proof (cases w rule: rev_cases)
  case Nil
  with assms show ?thesis by simp
next
  case (snoc w' x)
  show ?thesis
  proof (cases "w' = []")
    case True
    with snoc assms show ?thesis by simp
  next
    case False
    with snoc assms show ?thesis by (auto simp: walk_snoc)
  qed
qed

lemma paths_ok_step:
  assumes "paths_ok E s (p # rest) V"
  shows "paths_ok E s (rest @ map (\<lambda>n. p @ [n]) (fresh (E (last p)) V)) (V \<union> fst ` set (E (last p)))"
proof -
  let ?V' = "V \<union> fst ` set (E (last p))"
  let ?ok = "\<lambda>V r. walk E r \<and> hd r = s \<and> distinct r \<and> set r \<subseteq> V"
  from assms have p: "walk E p" "hd p = s" "distinct p" "set p \<subseteq> V" and s: "s \<in> V"
    and rest: "\<forall>r \<in> set rest. ?ok V r"
    by (auto simp: paths_ok_def)
  from p have ne: "p \<noteq> []" by auto
  have old: "?ok ?V' r" if "r \<in> set rest" for r
    using rest that by blast
  have new: "?ok ?V' (p @ [n])" if "n \<in> set (fresh (E (last p)) V)" for n
  proof -
    from that have "n \<in> fst ` set (E (last p))" "n \<notin> V" by (auto simp: set_fresh)
    with p ne show ?thesis by (auto simp: walk_snoc step_def)
  qed
  have "?ok ?V' r" if "r \<in> set (rest @ map (\<lambda>n. p @ [n]) (fresh (E (last p)) V))" for r
  proof -
    from that consider "r \<in> set rest" | n where "n \<in> set (fresh (E (last p)) V)" "r = p @ [n]"
      by auto
    then show ?thesis
    proof cases
      case 1
      then show ?thesis by (rule old)
    next
      case 2
      then show ?thesis using new by blast
    qed
  qed
  with s show ?thesis
    unfolding paths_ok_def by blast
qed

lemma levels_step:
  assumes "levels (p # rest)"
  shows "levels (rest @ map (\<lambda>n. p @ [n]) N)"
proof -
  define q where "q = rest @ map (\<lambda>n. p @ [n]) N"
  from assms have srt: "sorted (map length rest)"
    and lo: "\<forall>r \<in> set rest. length p \<le> length r"
    and hi: "\<forall>r \<in> set rest. length r \<le> Suc (length p)"
    by (auto simp: levels_def)
  have bounds: "length p \<le> length r \<and> length r \<le> Suc (length p)" if "r \<in> set q" for r
    using lo hi that by (auto simp: q_def)
  have "sorted (map length (map (\<lambda>n. p @ [n]) N))"
    by (induction N) auto
  with srt hi have s1: "sorted (map length q)"
    by (auto simp: sorted_append q_def)
  have s2: "length r \<le> Suc (length (hd q))" if r: "r \<in> set q" for r
  proof -
    from r have "q \<noteq> []" by auto
    then have "hd q \<in> set q" by (rule hd_in_set)
    then have "length p \<le> length (hd q)" using bounds by blast
    moreover have "length r \<le> Suc (length p)" using bounds r by blast
    ultimately show ?thesis by linarith
  qed
  from s1 s2 have "levels q" by (simp add: levels_def)
  then show ?thesis by (simp add: q_def)
qed

lemma closed_step:
  assumes "closed E (p # rest) V"
  shows "closed E (rest @ map (\<lambda>n. p @ [n]) (fresh (E (last p)) V)) (V \<union> fst ` set (E (last p)))"
  unfolding closed_def
proof (intro ballI impI allI)
  fix u v
  let ?V' = "V \<union> fst ` set (E (last p))"
  assume u: "u \<in> ?V'"
    and nq: "u \<notin> last ` set (rest @ map (\<lambda>n. p @ [n]) (fresh (E (last p)) V))"
    and st: "step E u v"
  show "v \<in> ?V'"
  proof (cases "u = last p")
    case True
    with st show ?thesis by (simp add: step_def)
  next
    case False
    have "u \<in> V"
    proof (rule ccontr)
      assume "u \<notin> V"
      with u have "u \<in> set (fresh (E (last p)) V)" by (simp add: set_fresh)
      then have "u \<in> last ` set (map (\<lambda>n. p @ [n]) (fresh (E (last p)) V))"
        by (force simp: image_iff)
      with nq show False by auto
    qed
    moreover from nq False have "u \<notin> last ` set (p # rest)" by auto
    ultimately have "v \<in> V" using assms st unfolding closed_def by blast
    then show ?thesis by simp
  qed
qed

lemma shortest_step:
  assumes sh: "shortest E s (p # rest)" and fr: "frontier E s (p # rest) V"
  shows "shortest E s (rest @ map (\<lambda>n. p @ [n]) (fresh (E (last p)) V))"
  unfolding shortest_def
proof (intro allI impI)
  fix w r
  assume a: "walk E w \<and> hd w = s
      \<and> r \<in> set (rest @ map (\<lambda>n. p @ [n]) (fresh (E (last p)) V)) \<and> last w = last r"
  then consider "r \<in> set rest" | n where "n \<in> set (fresh (E (last p)) V)" "r = p @ [n]"
    by auto
  then show "length r \<le> length w"
  proof cases
    case 1
    with a sh show ?thesis unfolding shortest_def by auto
  next
    case 2
    then have "last w \<notin> V" using a by (simp add: set_fresh)
    with a fr have "length p < length w" unfolding frontier_def by auto
    with 2 show ?thesis by simp
  qed
qed

lemma sorted_hd_le:
  assumes "sorted (map length q)" "r \<in> set q"
  shows "length (hd q) \<le> length r"
proof (cases q)
  case Nil
  with assms show ?thesis by simp
next
  case (Cons a q')
  with assms show ?thesis by auto
qed

lemma frontier_step:
  assumes s: "s \<in> V'" and sub: "V \<subseteq> V'"
    and fr: "frontier E s (p # rest) V"
    and srt: "sorted (map length q')"
    and hi: "\<forall>r \<in> set q'. length r \<le> Suc (length p)"
    and cl: "closed E q' V'"
    and sh: "shortest E s q'"
  shows "frontier E s q' V'"
  unfolding frontier_def
proof (intro allI impI)
  fix w
  assume a: "walk E w \<and> hd w = s \<and> last w \<notin> V' \<and> q' \<noteq> []"
  then have w: "walk E w" "hd w = s" and out: "last w \<notin> V'" and ne: "q' \<noteq> []"
    by auto
  from ne have hdq: "hd q' \<in> set q'" by (rule hd_in_set)
  from walk_cases [OF w] out s
  obtain w' x where dec: "w = w' @ [x]" "walk E w'" "hd w' = s" "step E (last w') x"
    by auto
  from dec out have x: "x \<notin> V'" by simp
  show "length (hd q') < length w"
  proof (cases "last w' \<in> V'")
    case False
    with sub have "last w' \<notin> V" by blast
    with dec fr have "length p < length w'" unfolding frontier_def by auto
    moreover from hi hdq have "length (hd q') \<le> Suc (length p)" by blast
    ultimately show ?thesis using dec by simp
  next
    case True
    have "last w' \<in> last ` set q'"
    proof (rule ccontr)
      assume "last w' \<notin> last ` set q'"
      with cl True dec have "x \<in> V'" unfolding closed_def by blast
      with x show False by contradiction
    qed
    then obtain r where r: "r \<in> set q'" "last w' = last r" by auto
    with sh dec have "length r \<le> length w'" unfolding shortest_def by blast
    moreover from srt r(1) have "length (hd q') \<le> length r" by (rule sorted_hd_le)
    ultimately show ?thesis using dec by simp
  qed
qed

lemma bfs_inv_step:
  assumes "bfs_inv E s (p # rest) V"
  shows "bfs_inv E s (rest @ map (\<lambda>n. p @ [n]) (fresh (E (last p)) V))
           (V \<union> fst ` set (E (last p)))"
proof -
  let ?q = "rest @ map (\<lambda>n. p @ [n]) (fresh (E (last p)) V)"
  let ?V = "V \<union> fst ` set (E (last p))"
  from assms have po: "paths_ok E s (p # rest) V" and lv: "levels (p # rest)"
    and cl: "closed E (p # rest) V" and sh: "shortest E s (p # rest)"
    and fr: "frontier E s (p # rest) V"
    by (simp_all add: bfs_inv_def)
  have po': "paths_ok E s ?q ?V" using po by (rule paths_ok_step)
  have lv': "levels ?q" using lv by (rule levels_step)
  have cl': "closed E ?q ?V" using cl by (rule closed_step)
  have sh': "shortest E s ?q" using sh fr by (rule shortest_step)
  from lv have "\<forall>r \<in> set rest. length r \<le> Suc (length p)" by (simp add: levels_def)
  then have hi: "\<forall>r \<in> set ?q. length r \<le> Suc (length p)" by auto
  from po' have s: "s \<in> ?V" by (simp add: paths_ok_def)
  from lv' have srt: "sorted (map length ?q)" by (simp add: levels_def)
  have fr': "frontier E s ?q ?V"
    by (rule frontier_step [OF s _ fr srt hi cl' sh']) blast
  from po' lv' cl' sh' fr' show ?thesis by (simp add: bfs_inv_def)
qed

lemma walk_singleton: "walk E w \<Longrightarrow> length w \<le> 1 \<Longrightarrow> w = [hd w]"
  by (cases w) auto

lemma bfs_inv_init: "bfs_inv E s [[s]] {s}"
proof -
  have "1 < length w" if "walk E w" "hd w = s" "last w \<noteq> s" for w
  proof (rule ccontr)
    assume "\<not> 1 < length w"
    with that(1) have "w = [hd w]" by (intro walk_singleton) auto
    with that(2) have "w = [s]" by simp
    with that(3) show False by simp
  qed
  then have "frontier E s [[s]] {s}" by (simp add: frontier_def)
  moreover have "shortest E s [[s]]"
    unfolding shortest_def by (auto simp: Suc_le_eq)
  moreover have "paths_ok E s [[s]] {s}" "levels [[s]]" "closed E [[s]] {s}"
    by (simp_all add: paths_ok_def levels_def closed_def)
  ultimately show ?thesis by (simp add: bfs_inv_def)
qed

lemma bfs_loop_sound:
  assumes "bfs_inv E s q V" "outgoing_edges d = E"
    and "bfs_loop d q V t = Some (Some p, d', out)"
  shows "connects E s t p \<and> distinct p \<and> (\<forall>w. connects E s t w \<longrightarrow> length p \<le> length w)
           \<and> out = [PathFound (int (length p) - 1)]"
  using assms
proof (induction d q V rule: bfs_loop_induct [where t = t])
  case (Nil d V)
  then show ?case by (simp add: bfs_loop_Nil)
next
  case (Cons d c rest V)
  show ?case
  proof (cases "last c = t")
    case True
    with Cons.prems(3) have eq: "p = c" "out = [PathFound (int (length p) - 1)]"
      by (auto simp: bfs_loop_Cons)
    from Cons.prems(1) have "paths_ok E s (c # rest) V" "shortest E s (c # rest)"
      by (simp_all add: bfs_inv_def)
    then have "walk E c \<and> hd c = s \<and> distinct c"
      and "\<forall>w. walk E w \<and> hd w = s \<and> last w = last c \<longrightarrow> length c \<le> length w"
      by (auto simp: paths_ok_def shortest_def)
    with True eq show ?thesis by (simp add: connects_def)
  next
    case False
    from Cons.prems(2) have E: "outgoing_edges d (last c) = E (last c)" by simp
    show ?thesis
    proof (rule Cons.IH [OF False])
      show "bfs_inv E s (rest @ map (\<lambda>n. c @ [n]) (fresh (outgoing_edges d (last c)) V))
              (V \<union> fst ` set (outgoing_edges d (last c)))"
        unfolding E using Cons.prems(1) by (rule bfs_inv_step)
      show "outgoing_edges (snd (dd_getitem d (last c))) = E"
        using Cons.prems(2) by (simp add: outgoing_dd_getitem)
      show "bfs_loop (snd (dd_getitem d (last c)))
              (rest @ map (\<lambda>n. c @ [n]) (fresh (outgoing_edges d (last c)) V))
              (V \<union> fst ` set (outgoing_edges d (last c))) t = Some (Some p, d', out)"
        using Cons.prems(3) False by (simp add: bfs_loop_Cons)
    qed
  qed
qed

section \<open>The dict after a search\<close>

lemma dd_getitem_cases:
  "(map_of d k \<noteq> None \<and> dd_getitem d k = (outgoing_edges d k, d))
     \<or> (map_of d k = None \<and> dd_getitem d k = ([], d @ blanks [k]))"
  by (cases "map_of d k") (simp_all add: dd_getitem_def outgoing_edges_def blanks_def)

lemma blanks_append: "blanks (ks @ ks') = blanks ks @ blanks ks'"
  by (simp add: blanks_def)

lemma map_of_blanks: "map_of (blanks ks) k = (if k \<in> set ks then Some [] else None)"
  by (induction ks) (auto simp: blanks_def)

lemma map_of_append_blanks:
  "map_of (d @ blanks ks) k = (case map_of d k of Some es \<Rightarrow> Some es
      | None \<Rightarrow> if k \<in> set ks then Some [] else None)"
  by (simp add: map_of_append map_add_def map_of_blanks split: option.splits)

lemma outgoing_append_blanks: "outgoing_edges (d @ blanks ks) = outgoing_edges d"
  by (rule ext) (simp add: outgoing_edges_def map_of_append_blanks del: map_of_append
        split: option.splits)

lemma bfs_loop_frame:
  assumes "bfs_loop d q V t = Some (r, d', out)"
  shows "\<exists>ks. d' = d @ blanks ks \<and> distinct ks \<and> (\<forall>k \<in> set ks. map_of d k = None)"
  using assms
proof (induction d q V rule: bfs_loop_induct [where t = t])
  case (Nil d V)
  then have "d' = d @ blanks []" by (simp add: bfs_loop_Nil blanks_def)
  then show ?case by force
next
  case (Cons d c rest V)
  show ?case
  proof (cases "last c = t")
    case True
    with Cons.prems have "d' = d @ blanks []" by (simp add: bfs_loop_Cons blanks_def)
    then show ?thesis by force
  next
    case False
    let ?d1 = "snd (dd_getitem d (last c))"
    from Cons.prems False have "bfs_loop ?d1
          (rest @ map (\<lambda>n. c @ [n]) (fresh (outgoing_edges d (last c)) V))
          (V \<union> fst ` set (outgoing_edges d (last c))) t = Some (r, d', out)"
      by (simp add: bfs_loop_Cons)
    from Cons.IH [OF False this]
    obtain ks where ks: "d' = ?d1 @ blanks ks" "distinct ks" "\<forall>k \<in> set ks. map_of ?d1 k = None"
      by blast
    from dd_getitem_cases [of d "last c"] show ?thesis
    proof (elim disjE conjE)
      assume "dd_getitem d (last c) = (outgoing_edges d (last c), d)"
      with ks show ?thesis by auto
    next
      assume none: "map_of d (last c) = None"
        and "dd_getitem d (last c) = ([], d @ blanks [last c])"
      then have d1: "?d1 = d @ blanks [last c]" by simp
      have "d' = d @ blanks (last c # ks)"
        using ks(1) by (simp add: d1 blanks_def)
      moreover have "\<forall>k \<in> set ks. k \<noteq> last c \<and> map_of d k = None"
      proof
        fix k
        assume "k \<in> set ks"
        with ks(3) have "map_of (d @ blanks [last c]) k = None" by (simp add: d1)
        then show "k \<noteq> last c \<and> map_of d k = None"
          by (simp add: map_of_append_blanks del: map_of_append
                split: option.splits if_splits)
      qed
      ultimately show ?thesis using ks(2) none
        by (intro exI [of _ "last c # ks"]) auto
    qed
  qed
qed

lemma bfs_loop_keeps_keys:
  assumes "bfs_loop d q V t = Some (r, d', out)" "map_of d k \<noteq> None"
  shows "map_of d' k \<noteq> None"
proof -
  from bfs_loop_frame [OF assms(1)] obtain ks where "d' = d @ blanks ks" by blast
  with assms(2) show ?thesis
    by (auto simp: map_of_append_blanks simp del: map_of_append)
qed

lemma bfs_loop_outgoing:
  assumes "bfs_loop d q V t = Some (r, d', out)"
  shows "outgoing_edges d' = outgoing_edges d"
proof -
  from bfs_loop_frame [OF assms] obtain ks where "d' = d @ blanks ks" by blast
  then show ?thesis by (simp add: outgoing_append_blanks)
qed

lemma dd_getitem_key: "map_of (snd (dd_getitem d k)) k \<noteq> None"
  by (cases "map_of d k") (simp_all add: dd_getitem_def)

lemma dd_getitem_present: "map_of h k \<noteq> None \<Longrightarrow> dd_getitem h k = (outgoing_edges h k, h)"
  by (auto simp: dd_getitem_def outgoing_edges_def)

lemma bfs_loop_again:
  assumes "bfs_loop d q V t = Some (r, d', out)"
    and "outgoing_edges h = outgoing_edges d"
    and "\<forall>k. map_of d' k \<noteq> None \<longrightarrow> map_of h k \<noteq> None"
  shows "bfs_loop h q V t = Some (r, h, out)"
  using assms
proof (induction d q V arbitrary: h rule: bfs_loop_induct [where t = t])
  case (Nil d V)
  then show ?case by (simp add: bfs_loop_Nil)
next
  case (Cons d c rest V)
  show ?case
  proof (cases "last c = t")
    case True
    with Cons.prems(1) show ?thesis by (simp add: bfs_loop_Cons)
  next
    case False
    let ?d1 = "snd (dd_getitem d (last c))"
    let ?q1 = "rest @ map (\<lambda>n. c @ [n]) (fresh (outgoing_edges d (last c)) V)"
    let ?V1 = "V \<union> fst ` set (outgoing_edges d (last c))"
    from Cons.prems(1) False have run: "bfs_loop ?d1 ?q1 ?V1 t = Some (r, d', out)"
      by (simp add: bfs_loop_Cons)
    have "map_of d' (last c) \<noteq> None"
      using run dd_getitem_key by (rule bfs_loop_keeps_keys)
    with Cons.prems(3) have "map_of h (last c) \<noteq> None" by blast
    then have get: "dd_getitem h (last c) = (outgoing_edges h (last c), h)"
      by (rule dd_getitem_present)
    have "bfs_loop h ?q1 ?V1 t = Some (r, h, out)"
      using False run
    proof (rule Cons.IH)
      show "outgoing_edges h = outgoing_edges ?d1"
        using Cons.prems(2) by (simp add: outgoing_dd_getitem)
      show "\<forall>k. map_of d' k \<noteq> None \<longrightarrow> map_of h k \<noteq> None" by (rule Cons.prems(3))
    qed
    with False show ?thesis
      by (simp add: bfs_loop_Cons get Cons.prems(2))
  qed
qed

section \<open>The search as a whole\<close>

lemma bfs_loop_none_out:
  assumes "bfs_loop d q V t = Some (None, d', out)"
  shows "out = [NoPathFound]"
  using assms
proof (induction d q V rule: bfs_loop_induct [where t = t])
  case (Nil d V)
  then show ?case by (auto simp: bfs_loop_Nil)
next
  case (Cons d c rest V)
  show ?case
  proof (cases "last c = t")
    case True
    with Cons.prems show ?thesis by (simp add: bfs_loop_Cons)
  next
    case False
    with Cons.prems show ?thesis by (intro Cons.IH) (simp_all add: bfs_loop_Cons)
  qed
qed

lemma find_unknown:
  "\<not> start_known G s \<Longrightarrow>
     find_shortest_attack_path_bfs G s t = Some (None, G, [UnknownStart s])"
  by (simp add: find_shortest_attack_path_bfs_def start_known_def)

lemma find_known:
  "start_known G s \<Longrightarrow>
     find_shortest_attack_path_bfs G s t =
       (case bfs_loop (graph G) [[s]] {s} t of
          None \<Rightarrow> None
        | Some (r, g', out) \<Rightarrow> Some (r, G\<lparr> graph := g' \<rparr>, SearchStarted s t # out))"
  by (auto simp: find_shortest_attack_path_bfs_def start_known_def)

lemma find_Some_cases [consumes 1, case_names unknown search]:
  assumes "find_shortest_attack_path_bfs G s t = Some (r, G', out)"
  obtains "\<not> start_known G s" "r = None" "G' = G" "out = [UnknownStart s]"
  | d' out' where "start_known G s" "bfs_loop (graph G) [[s]] {s} t = Some (r, d', out')"
      "G' = G\<lparr> graph := d' \<rparr>" "out = SearchStarted s t # out'"
proof (cases "start_known G s")
  case False
  from assms have "r = None" "G' = G" "out = [UnknownStart s]"
    by (simp_all add: find_unknown [OF False])
  with False show ?thesis by (rule that(1))
next
  case True
  from assms obtain d' out' where "bfs_loop (graph G) [[s]] {s} t = Some (r, d', out')"
      "G' = G\<lparr> graph := d' \<rparr>" "out = SearchStarted s t # out'"
    by (auto simp: find_known [OF True] split: option.splits)
  with True show ?thesis by (rule that(2))
qed

lemma find_total: "\<exists>r G' out. find_shortest_attack_path_bfs G s t = Some (r, G', out)"
proof (cases "start_known G s")
  case False
  then show ?thesis by (simp add: find_unknown)
next
  case True
  obtain r d' out where "bfs_loop (graph G) [[s]] {s} t = Some (r, d', out)"
    using bfs_loop_total [of "graph G" "[[s]]" "{s}" t] by (metis prod_cases3)
  with True show ?thesis by (simp add: find_known)
qed

lemma walk_stays_in_closed:
  assumes "walk E w" "hd w \<in> S" "\<forall>u \<in> S. \<forall>v. step E u v \<longrightarrow> v \<in> S"
  shows "last w \<in> S"
  using assms by (induction E w rule: walk.induct) auto

lemma find_sound:
  assumes "find_shortest_attack_path_bfs G s t = Some (Some p, G', out)"
  shows "connects (outgoing_edges (graph G)) s t p \<and> distinct p
     \<and> (\<forall>w. connects (outgoing_edges (graph G)) s t w \<longrightarrow> length p \<le> length w)
     \<and> out = [SearchStarted s t, PathFound (int (length p) - 1)]"
  using assms
proof (cases rule: find_Some_cases)
  case unknown
  then show ?thesis by simp
next
  case (search d' out')
  from bfs_loop_sound [OF bfs_inv_init refl search(2)] search(4)
  show ?thesis by simp
qed

lemma find_unreachable:
  assumes "\<not> (\<exists>w. connects (outgoing_edges (graph G)) s t w)" "start_known G s"
  shows "\<exists>G'. find_shortest_attack_path_bfs G s t
            = Some (None, G', [SearchStarted s t, NoPathFound])"
proof -
  from find_total obtain r G' out
    where run: "find_shortest_attack_path_bfs G s t = Some (r, G', out)" by blast
  have r: "r = None"
  proof (cases r)
    case (Some p)
    with run find_sound assms(1) show ?thesis by blast
  qed simp
  from run show ?thesis
  proof (cases rule: find_Some_cases)
    case unknown
    with assms(2) show ?thesis by simp
  next
    case (search d' out')
    with r bfs_loop_none_out have "out' = [NoPathFound]" by blast
    with run r search show ?thesis by simp
  qed
qed

lemma find_frame:
  assumes "find_shortest_attack_path_bfs G s t = Some (r, G', out)"
  shows "visual_graph G' = visual_graph G
     \<and> (\<exists>ks. graph G' = graph G @ blanks ks \<and> distinct ks
            \<and> (\<forall>k \<in> set ks. \<not> dd_contains (graph G) k))"
  using assms
proof (cases rule: find_Some_cases)
  case unknown
  then have "graph G' = graph G @ blanks []" by (simp add: blanks_def)
  with unknown show ?thesis by force
next
  case (search d' out')
  from bfs_loop_frame [OF search(2)] search(3) show ?thesis
    by (simp add: dd_contains_def)
qed

lemma outgoing_add_attack_step:
  "outgoing_edges (graph (fst (add_attack_step G s t e))) s = outgoing_edges (graph G) s @ [(t, e)]"
proof -
  obtain es d where get: "dd_getitem (graph G) s = (es, d)" by (cases "dd_getitem (graph G) s")
  then have "es = outgoing_edges (graph G) s"
    using fst_dd_getitem [of "graph G" s] by simp
  with get show ?thesis
    by (simp add: add_attack_step_def outgoing_edges_def update_conv')
qed

section \<open>The claims\<close>

text \<open>
  C1. Whenever \<^verbatim>\<open>find_shortest_attack_path_bfs\<close> returns a path, the path starts with
  the start node, ends with the target, repeats no node, follows edges of the graph, and
  no walk from start to target has fewer edges: its edge count is the hop distance.
\<close>

theorem bfs_path_is_shortest:
  assumes "find_shortest_attack_path_bfs G s t = Some (Some p, G', out)"
  shows "hd p = s \<and> last p = t \<and> distinct p \<and> walk (outgoing_edges (graph G)) p
     \<and> (\<forall>w. connects (outgoing_edges (graph G)) s t w \<longrightarrow> hops p \<le> hops w)
     \<and> hops p = hop_distance (outgoing_edges (graph G)) s t"
proof -
  let ?E = "outgoing_edges (graph G)"
  from find_sound [OF assms] have con: "connects ?E s t p" and dis: "distinct p"
    and least: "\<And>w. connects ?E s t w \<Longrightarrow> length p \<le> length w"
    by blast+
  have le: "hops p \<le> hops w" if "connects ?E s t w" for w
    using least [OF that] by (simp add: hops_def)
  have "(LEAST n. \<exists>w. connects ?E s t w \<and> hops w = n) = hops p"
  proof (rule Least_equality)
    show "\<exists>w. connects ?E s t w \<and> hops w = hops p" using con by blast
    show "hops p \<le> n" if "\<exists>w. connects ?E s t w \<and> hops w = n" for n
      using that le by blast
  qed
  then have "hops p = hop_distance ?E s t" by (simp add: hop_distance_def)
  with con dis le show ?thesis by (simp add: connects_def)
qed

theorem bfs_path_is_shortest_witness:
  "find_shortest_attack_path_bfs (build sample_steps) ''Internet'' ''Database_SQL''
     = Some (Some [''Internet'', ''WebServer'', ''AppServer'', ''Database_SQL''],
             build sample_steps,
             [SearchStarted ''Internet'' ''Database_SQL'', PathFound 3])
   \<and> hop_distance (outgoing_edges (graph (build sample_steps))) ''Internet'' ''Database_SQL'' = 3"
proof -
  have run: "find_shortest_attack_path_bfs (build sample_steps) ''Internet'' ''Database_SQL''
     = Some (Some [''Internet'', ''WebServer'', ''AppServer'', ''Database_SQL''],
             build sample_steps,
             [SearchStarted ''Internet'' ''Database_SQL'', PathFound 3])"
    by code_simp
  from bfs_path_is_shortest [OF run]
  have "hops [''Internet'', ''WebServer'', ''AppServer'', ''Database_SQL'']
      = hop_distance (outgoing_edges (graph (build sample_steps))) ''Internet'' ''Database_SQL''"
    by blast
  with run show ?thesis by (simp add: hops_def)
qed

text \<open>
  C2. The claim is that a search never adds a key to the adjacency mapping. On the sample
  topology the search from Internet to Printer expands the sink Database_SQL before it
  reaches Printer; reading \<^verbatim>\<open>self.graph[current_node]\<close> for that sink inserts the key
  Database_SQL, which was not a key before, with an empty list.
\<close>

theorem search_inserts_sink_key:
  "find_shortest_attack_path_bfs (build sample_steps) ''Internet'' ''Printer''
     = Some (Some [''Internet'', ''VPN_Gateway'', ''Internal_PC'', ''Printer''],
             \<lparr> graph = graph (build sample_steps) @ [(''Database_SQL'', [])],
               visual_graph = visual_graph (build sample_steps) \<rparr>,
             [SearchStarted ''Internet'' ''Printer'', PathFound 3])
   \<and> \<not> dd_contains (graph (build sample_steps)) ''Database_SQL''"
  by code_simp

lemma sample_printer_edges:
  "outgoing_edges (graph (build sample_steps)) ''Printer'' = [(''Database_SQL'', ''Legacy_Connect'')]"
  "outgoing_edges (graph (build sample_steps)) ''Database_SQL'' = []"
  by code_simp+

lemma sample_printer_isolated:
  "\<not> (\<exists>w. connects (outgoing_edges (graph (build sample_steps))) ''Printer'' ''Internet'' w)"
proof
  let ?E = "outgoing_edges (graph (build sample_steps))"
  let ?S = "{''Printer'', ''Database_SQL''}"
  assume "\<exists>w. connects ?E ''Printer'' ''Internet'' w"
  then obtain w where w: "walk ?E w" "hd w = ''Printer''" "last w = ''Internet''"
    by (auto simp: connects_def)
  have cl: "\<forall>u \<in> ?S. \<forall>v. step ?E u v \<longrightarrow> v \<in> ?S"
    by (simp add: step_def sample_printer_edges)
  have "hd w \<in> ?S" by (simp add: w(2))
  with w(1) have "last w \<in> ?S" using cl by (rule walk_stays_in_closed)
  with w(3) show False by simp
qed

lemma sample_start_known:
  "start_known (build sample_steps) ''Printer''"
  "\<not> start_known (build sample_steps) ''Nowhere''"
  by code_simp+

text \<open>
  C3. The claim is that the caller can tell the unknown-start failure from the
  exhausted search by the returned value. On the sample topology a search from the
  unknown node Nowhere and the exhausted search from Printer to Internet both return
  Python's \<^verbatim>\<open>None\<close>; only the printed line differs.
\<close>

theorem failures_return_same_value:
  "find_shortest_attack_path_bfs (build sample_steps) ''Nowhere'' ''Database_SQL''
     = Some (None, build sample_steps, [UnknownStart ''Nowhere''])
   \<and> find_shortest_attack_path_bfs (build sample_steps) ''Printer'' ''Internet''
     = Some (None,
             \<lparr> graph = graph (build sample_steps) @ [(''Database_SQL'', [])],
               visual_graph = visual_graph (build sample_steps) \<rparr>,
             [SearchStarted ''Printer'' ''Internet'', NoPathFound])
   \<and> map_option fst (find_shortest_attack_path_bfs (build sample_steps) ''Nowhere'' ''Database_SQL'')
     = map_option fst (find_shortest_attack_path_bfs (build sample_steps) ''Printer'' ''Internet'')"
  by code_simp

text \<open>
  C3, as the code has it. A start node that fails the guard and a search that exhausts
  (the start passes the guard, the target is unreachable) return the same value
  \<^verbatim>\<open>None\<close>; the first prints the unknown-start line and leaves the object as it was,
  the second prints the no-path line.
\<close>

theorem failures_both_None:
  assumes "\<not> start_known G s" "start_known G s'"
    and "\<not> (\<exists>w. connects (outgoing_edges (graph G)) s' t' w)"
  shows "\<exists>G'. find_shortest_attack_path_bfs G s t = Some (None, G, [UnknownStart s])
     \<and> find_shortest_attack_path_bfs G s' t' = Some (None, G', [SearchStarted s' t', NoPathFound])"
  using find_unknown [OF assms(1)] find_unreachable [OF assms(3, 2)] by blast

theorem failures_both_None_witness:
  "\<exists>G'. find_shortest_attack_path_bfs (build sample_steps) ''Nowhere'' ''Database_SQL''
        = Some (None, build sample_steps, [UnknownStart ''Nowhere''])
     \<and> find_shortest_attack_path_bfs (build sample_steps) ''Printer'' ''Internet''
        = Some (None, G', [SearchStarted ''Printer'' ''Internet'', NoPathFound])"
  by (rule failures_both_None [OF sample_start_known(2) sample_start_known(1)
        sample_printer_isolated])

text \<open>
  C4. The claim is that a node which appears only as the target of an edge is a known
  start node. On the sample topology Database_SQL is the target of four edges and the
  source of none; the search started there returns at the guard with the unknown-start
  line, where the claim has it run and return the one-node path.
\<close>

theorem sink_start_reported_unknown:
  "find_shortest_attack_path_bfs (build sample_steps) ''Database_SQL'' ''Database_SQL''
     = Some (None, build sample_steps, [UnknownStart ''Database_SQL''])
   \<and> ''Database_SQL'' \<in> targets (graph (build sample_steps))"
  by code_simp

text \<open>
  C5. When the target cannot be reached from the start by directed edges the search
  returns, and what it returns is \<^verbatim>\<open>None\<close>, never a path. For a start that passes the
  guard the line printed is the no-path line.
\<close>

theorem unreachable_returns_None:
  assumes "\<not> (\<exists>w. connects (outgoing_edges (graph G)) s t w)"
  shows "\<exists>G'. find_shortest_attack_path_bfs G s t
      = Some (None, G', if start_known G s then [SearchStarted s t, NoPathFound]
                         else [UnknownStart s])"
proof (cases "start_known G s")
  case True
  with find_unreachable [OF assms True] show ?thesis by simp
next
  case False
  with find_unknown [OF False] show ?thesis by simp
qed

theorem unreachable_returns_None_witness:
  "\<exists>G'. find_shortest_attack_path_bfs (build sample_steps) ''Printer'' ''Internet''
      = Some (None, G', [SearchStarted ''Printer'' ''Internet'', NoPathFound])"
  using unreachable_returns_None [OF sample_printer_isolated] sample_start_known(1)
  by simp

text \<open>
  C6. Every call of \<^verbatim>\<open>add_attack_step\<close> puts (target, exploit) at the end of the
  outgoing-edge sequence of the source, which grows by exactly one; a second call with
  the same arguments stores the edge a second time.
\<close>

theorem add_attack_step_appends:
  "outgoing_edges (graph (fst (add_attack_step G s t e))) s
     = outgoing_edges (graph G) s @ [(t, e)]
   \<and> length (outgoing_edges (graph (fst (add_attack_step G s t e))) s)
     = Suc (length (outgoing_edges (graph G) s))
   \<and> outgoing_edges (graph (fst (add_attack_step (fst (add_attack_step G s t e)) s t e))) s
     = outgoing_edges (graph G) s @ [(t, e), (t, e)]"
  by (simp add: outgoing_add_attack_step)

text \<open>
  C7. On the sample topology the search from Internet to Database_SQL returns the
  three-edge path through WebServer and AppServer (one of the two paths the spec
  allows), not the four-edge path through VPN_Gateway, Internal_PC and Printer.
\<close>

theorem sample_scenario:
  "find_shortest_attack_path_bfs (build sample_steps) ''Internet'' ''Database_SQL''
     = Some (Some [''Internet'', ''WebServer'', ''AppServer'', ''Database_SQL''],
             build sample_steps,
             [SearchStarted ''Internet'' ''Database_SQL'', PathFound 3])
   \<and> hops [''Internet'', ''WebServer'', ''AppServer'', ''Database_SQL''] = 3"
  by code_simp

text \<open>
  C8. In a graph that holds a self-loop on a node, the search from that node to itself
  returns at once with the one-node path and leaves the object as it was.
\<close>

theorem self_loop_trivial_path:
  assumes "(a, e) \<in> set (outgoing_edges (graph G) a)"
  shows "find_shortest_attack_path_bfs G a a
      = Some (Some [a], G, [SearchStarted a a, PathFound 0])"
proof -
  have "map_of (graph G) a \<noteq> None"
  proof
    assume "map_of (graph G) a = None"
    with assms show False by (simp add: outgoing_edges_def)
  qed
  then have "start_known G a" by (simp add: start_known_def dd_contains_def)
  then show ?thesis by (simp add: find_known bfs_loop_Cons)
qed

theorem self_loop_trivial_path_witness:
  "find_shortest_attack_path_bfs (build [(''A'', ''A'', ''loop'')]) ''A'' ''A''
      = Some (Some [''A''], build [(''A'', ''A'', ''loop'')],
              [SearchStarted ''A'' ''A'', PathFound 0])"
proof -
  have "(''A'', ''loop'') \<in> set (outgoing_edges (graph (build [(''A'', ''A'', ''loop'')])) ''A'')"
    by code_simp
  then show ?thesis by (rule self_loop_trivial_path)
qed

text \<open>
  An immediate repetition is stable: a search that has returned, run again with the same
  arguments on the object as the first run left it, returns the same value, prints the
  same lines and leaves the object unchanged.
\<close>

lemma find_again:
  assumes "find_shortest_attack_path_bfs G s t = Some (r, G', out)"
  shows "find_shortest_attack_path_bfs G' s t = Some (r, G', out)"
  using assms
proof (cases rule: find_Some_cases)
  case unknown
  with assms show ?thesis by simp
next
  case (search d' out')
  from search(2) have out: "outgoing_edges d' = outgoing_edges (graph G)"
    by (rule bfs_loop_outgoing)
  have keys: "map_of d' k \<noteq> None" if "map_of (graph G) k \<noteq> None" for k
    using search(2) that by (rule bfs_loop_keeps_keys)
  from search(1) have "start_known G' s"
    using keys [of s] by (auto simp: start_known_def dd_contains_def search(3))
  moreover have "bfs_loop d' [[s]] {s} t = Some (r, d', out')"
    using search(2) out by (rule bfs_loop_again) simp
  ultimately show ?thesis
    by (simp add: find_known search(3,4))
qed

text \<open>
  C9. The claim is that two invocations with the same start and target on the same graph
  return the same result, whatever happens in between, because the result depends on the
  edges and the arguments only. On the sample topology the search from Database_SQL to
  Database_SQL returns \<^verbatim>\<open>None\<close> with the unknown-start line. The search from Internet
  to Printer, run next, inserts no edge (every node has the outgoing edges it had) but
  leaves the key Database_SQL in \<^verbatim>\<open>self.graph\<close>. The search from Database_SQL to
  Database_SQL, run again, now passes the guard and returns the one-node path.
\<close>

theorem search_result_depends_on_earlier_search:
  "find_shortest_attack_path_bfs (build sample_steps) ''Database_SQL'' ''Database_SQL''
     = Some (None, build sample_steps, [UnknownStart ''Database_SQL''])
   \<and> find_shortest_attack_path_bfs (build sample_steps) ''Internet'' ''Printer''
     = Some (Some [''Internet'', ''VPN_Gateway'', ''Internal_PC'', ''Printer''],
             \<lparr> graph = graph (build sample_steps) @ [(''Database_SQL'', [])],
               visual_graph = visual_graph (build sample_steps) \<rparr>,
             [SearchStarted ''Internet'' ''Printer'', PathFound 3])
   \<and> find_shortest_attack_path_bfs
       \<lparr> graph = graph (build sample_steps) @ [(''Database_SQL'', [])],
         visual_graph = visual_graph (build sample_steps) \<rparr> ''Database_SQL'' ''Database_SQL''
     = Some (Some [''Database_SQL''],
             \<lparr> graph = graph (build sample_steps) @ [(''Database_SQL'', [])],
               visual_graph = visual_graph (build sample_steps) \<rparr>,
             [SearchStarted ''Database_SQL'' ''Database_SQL'', PathFound 0])
   \<and> outgoing_edges (graph (build sample_steps) @ [(''Database_SQL'', [])])
     = outgoing_edges (graph (build sample_steps))"
proof -
  have first: "find_shortest_attack_path_bfs (build sample_steps) ''Database_SQL'' ''Database_SQL''
     = Some (None, build sample_steps, [UnknownStart ''Database_SQL''])"
    by code_simp
  have between: "find_shortest_attack_path_bfs (build sample_steps) ''Internet'' ''Printer''
     = Some (Some [''Internet'', ''VPN_Gateway'', ''Internal_PC'', ''Printer''],
             \<lparr> graph = graph (build sample_steps) @ [(''Database_SQL'', [])],
               visual_graph = visual_graph (build sample_steps) \<rparr>,
             [SearchStarted ''Internet'' ''Printer'', PathFound 3])"
    by code_simp
  have second: "find_shortest_attack_path_bfs
       \<lparr> graph = graph (build sample_steps) @ [(''Database_SQL'', [])],
         visual_graph = visual_graph (build sample_steps) \<rparr> ''Database_SQL'' ''Database_SQL''
     = Some (Some [''Database_SQL''],
             \<lparr> graph = graph (build sample_steps) @ [(''Database_SQL'', [])],
               visual_graph = visual_graph (build sample_steps) \<rparr>,
             [SearchStarted ''Database_SQL'' ''Database_SQL'', PathFound 0])"
    by code_simp
  have edges: "outgoing_edges (graph (build sample_steps) @ [(''Database_SQL'', [])])
     = outgoing_edges (graph (build sample_steps))"
    using outgoing_append_blanks [of "graph (build sample_steps)" "[''Database_SQL'']"]
    by (simp add: blanks_def)
  from first between second edges show ?thesis by blast
qed

text \<open>
  C10. The search returns for every graph, start and target: the loop is never the
  value \<open>None\<close> of a run without end. The graph is a finite association list, and with
  every iteration the number of unvisited edge targets plus the length of the queue
  (\<open>budget\<close>) goes down, because a node joins the queue only when it is marked visited.
\<close>

theorem search_terminates:
  "\<exists>r G' out. find_shortest_attack_path_bfs G s t = Some (r, G', out)"
proof (cases "start_known G s")
  case False
  then show ?thesis by (simp add: find_unknown)
next
  case True
  from bfs_loop_total obtain res where "bfs_loop (graph G) [[s]] {s} t = Some res"
    by blast
  moreover obtain r d' out where "res = (r, d', out)" by (cases res)
  ultimately show ?thesis using True by (simp add: find_known)
qed

end
